theory Spec2Isabelle
  imports Main "HOL-Library.Word" "HOL-Library.AList"
begin

unbundle bit_operations_syntax

section \<open>Errors and BigInt arithmetic\<close>

text \<open>
  Every exception class of the library is a constructor; a function that can throw
  returns \<open>error + 'a\<close> with \<open>Inl\<close> for the exception. A function containing a loop
  that is not known to stop for every input returns an \<open>option\<close> of that, with
  \<open>None\<close> for a run that never returns. The \<open>typeof\<close> guards on arguments that
  TypeScript already types as \<open>bigint\<close> are not modelled: BigInt values are \<open>int\<close>.
\<close>

datatype error =
    TypeError | RangeError | ValueError | NegativeValueError | MaximumValueError
  | KeyLengthError | MultiplierError | DuplicateError | UnknownKeyError
  | SchemaValidationError | BitOverflowError | Error

type_synonym 'a result = "error + 'a"

text \<open>JavaScript's BigInt \<open>/\<close> truncates towards zero and \<open>%\<close> takes the sign of the
  dividend. Both throw on a zero divisor; every use below is behind a guard on the divisor
  except the one in \<open>isqrt\<close>, which carries the check explicitly.\<close>

definition bigint_div :: "int \<Rightarrow> int \<Rightarrow> int" where
  "bigint_div a b = sgn a * sgn b * (\<bar>a\<bar> div \<bar>b\<bar>)"

definition bigint_rem :: "int \<Rightarrow> int \<Rightarrow> int" where
  "bigint_rem a b = sgn a * (\<bar>a\<bar> mod \<bar>b\<bar>)"

text \<open>\<open><<\<close> and \<open>>>\<close> on BigInt: a negative count shifts the other way.\<close>

definition bigint_shl :: "int \<Rightarrow> int \<Rightarrow> int" where
  "bigint_shl a n = (if 0 \<le> n then push_bit (nat n) a else drop_bit (nat (- n)) a)"

definition bigint_shr :: "int \<Rightarrow> int \<Rightarrow> int" where
  "bigint_shr a n = (if 0 \<le> n then drop_bit (nat n) a else push_bit (nat (- n)) a)"

definition divmod :: "int \<Rightarrow> int \<Rightarrow> (int \<times> int) result" where
  "divmod a b =
     (if b = 0 then Inl RangeError
      else let q = bigint_div a b; r = bigint_rem a b in
        if r \<noteq> 0 \<and> ((r < 0 \<and> b > 0) \<or> (r > 0 \<and> b < 0)) then Inr (q - 1, r + b)
        else Inr (q, r))"

section \<open>ObfuskeyAlphabet\<close>

text \<open>The alphabet string is a list of UTF-16 code units; the constructor's
  \<open>new Set(alphabet).size !== alphabet.length\<close> is the test that it has a repeated one.\<close>

record ObfuskeyAlphabet =
  alphabet :: string
  base :: int

definition new_ObfuskeyAlphabet :: "string \<Rightarrow> ObfuskeyAlphabet result" where
  "new_ObfuskeyAlphabet s =
     (if card (set s) \<noteq> length s then Inl DuplicateError
      else Inr \<lparr>alphabet = s, base = int (length s)\<rparr>)"



definition charAt :: "ObfuskeyAlphabet \<Rightarrow> int \<Rightarrow> string result" where
  "charAt a index =
     (if index < 0 \<or> index \<ge> base a then Inl RangeError
      else Inr [alphabet a ! nat index])"


section \<open>Base-N codec\<close>

partial_function (option) encode_loop ::
  "ObfuskeyAlphabet \<Rightarrow> int \<Rightarrow> string list \<Rightarrow> (string list) result option" where
  "encode_loop a v key =
     (if v > 0 then
        (case divmod v (base a) of
           Inl e \<Rightarrow> Some (Inl e)
         | Inr (q, r) \<Rightarrow>
             (case charAt a r of
                Inl e \<Rightarrow> Some (Inl e)
              | Inr c \<Rightarrow> encode_loop a q (key @ [c])))
      else Some (Inr key))"

definition encode :: "int \<Rightarrow> ObfuskeyAlphabet \<Rightarrow> string result option" where
  "encode v a =
     (if v < 0 then Some (Inl Error)
      else if v < base a then Some (charAt a v)
      else (case encode_loop a v [] of
              None \<Rightarrow> None
            | Some (Inl e) \<Rightarrow> Some (Inl e)
            | Some (Inr key) \<Rightarrow> Some (Inr (concat (rev key)))))"



declare encode_loop.simps [code]

section \<open>Arithmetic primitives\<close>

function gcd_loop :: "int \<Rightarrow> int \<Rightarrow> int" where
  "gcd_loop a b = (if b \<noteq> 0 then gcd_loop b (bigint_rem a b) else a)"
  by pat_completeness auto
termination
proof (relation "measure (\<lambda>(a, b). nat \<bar>b\<bar>)")
  show "wf (measure (\<lambda>(a, b). nat \<bar>b\<bar>))" by simp
next
  fix a b :: int
  assume nz: "b \<noteq> 0"
  then have "\<bar>a\<bar> mod \<bar>b\<bar> < \<bar>b\<bar>" by simp
  moreover have "0 \<le> \<bar>a\<bar> mod \<bar>b\<bar>"
    using nz by simp
  then have "\<bar>bigint_rem a b\<bar> \<le> \<bar>a\<bar> mod \<bar>b\<bar>"
    by (cases "a = 0") (simp_all add: bigint_rem_def abs_mult abs_sgn_eq)
  ultimately show "((b, bigint_rem a b), (a, b)) \<in> measure (\<lambda>(a, b). nat \<bar>b\<bar>)"
    by simp
qed

declare gcd_loop.simps [simp del]

definition gcd_js :: "int \<Rightarrow> int \<Rightarrow> int" where
  "gcd_js a b = gcd_loop (if a < 0 then - a else a) (if b < 0 then - b else b)"

text \<open>\<open>num.toString(2)\<close> for a positive BigInt: its binary digits, most significant first.\<close>

function toString2 :: "int \<Rightarrow> string" where
  "toString2 n =
     (if n < 2 then [if n = 1 then CHR ''1'' else CHR ''0'']
      else toString2 (n div 2) @ [if n mod 2 = 1 then CHR ''1'' else CHR ''0''])"
  by pat_completeness auto
termination
  by (relation "measure nat") auto

declare toString2.simps [simp del]

definition getBitLength :: "int \<Rightarrow> int result" where
  "getBitLength n =
     (if n < 0 then Inl ValueError
      else if n = 0 then Inr 0
      else Inr (int (length (toString2 n))))"

partial_function (option) isqrt_loop :: "int \<Rightarrow> int \<Rightarrow> int \<Rightarrow> int result option" where
  "isqrt_loop n x0 x1 =
     (if x1 < x0 then
        (if x1 = 0 then Some (Inl RangeError)
         else isqrt_loop n x1 (bigint_shr (x1 + bigint_div n x1) 1))
      else Some (Inr x0))"

declare isqrt_loop.simps [code]

definition isqrt :: "int \<Rightarrow> int result option" where
  "isqrt n =
     (if n < 0 then Some (Inl RangeError)
      else if n < 2 then Some (Inr n)
      else (case getBitLength n of
              Inl e \<Rightarrow> Some (Inl e)
            | Inr bl \<Rightarrow>
                let x0 = bigint_shl 1 (bigint_shr (bl + 1) 1) in
                if x0 = 0 then Some (Inl RangeError)
                else isqrt_loop n x0 (bigint_shr (x0 + bigint_div n x0) 1)))"

function pow_loop :: "int \<Rightarrow> int \<Rightarrow> int \<Rightarrow> int option \<Rightarrow> int" where
  "pow_loop r currentBase currentExponent modulus =
     (if currentExponent > 0 then
        pow_loop
          (if bigint_rem currentExponent 2 = 1 then
             (case modulus of
                Some m \<Rightarrow> bigint_rem (r * currentBase) m
              | None \<Rightarrow> r * currentBase)
           else r)
          (case modulus of
             Some m \<Rightarrow> bigint_rem (currentBase * currentBase) m
           | None \<Rightarrow> currentBase * currentBase)
          (bigint_div currentExponent 2)
          modulus
      else r)"
  by pat_completeness auto
termination
  by (relation "measure (\<lambda>(r, b, e, m). nat e)") (auto simp: bigint_div_def)

declare pow_loop.simps [simp del]

definition pow :: "int \<Rightarrow> int \<Rightarrow> int option \<Rightarrow> int result" where
  "pow b exponent modulus =
     (if exponent < 0 then Inl NegativeValueError
      else if modulus = Some 0 then Inl ValueError
      else if exponent = 0 then Inr (if modulus = Some 1 then 0 else 1)
      else if b = 0 then Inr 0
      else if modulus = Some 1 then Inr 0
      else
        let currentBase =
              (case modulus of
                 Some m \<Rightarrow> bigint_rem (bigint_rem b m + m) m
               | None \<Rightarrow> b);
            r = pow_loop 1 currentBase exponent modulus
        in (case modulus of
              Some m \<Rightarrow> Inr (bigint_rem (r + m) m)
            | None \<Rightarrow> Inr r))"

function modInv_loop :: "int \<Rightarrow> int \<Rightarrow> int \<Rightarrow> int \<Rightarrow> int \<times> int" where
  "modInv_loop r_prev r_curr t_prev t_curr =
     (if r_curr \<noteq> 0 then
        let q = bigint_div r_prev r_curr in
        modInv_loop r_curr (r_prev - q * r_curr) t_curr (t_prev - q * t_curr)
      else (r_prev, t_prev))"
  by pat_completeness auto
termination
proof (relation "measure (\<lambda>(r_prev, r_curr, t_prev, t_curr). nat \<bar>r_curr\<bar>)")
  show "wf (measure (\<lambda>(r_prev, r_curr, t_prev, t_curr). nat \<bar>r_curr\<bar>))" by simp
next
  fix r_prev r_curr t_prev t_curr q :: int
  assume nz: "r_curr \<noteq> 0" and q: "q = bigint_div r_prev r_curr"
  have a: "r_prev = sgn r_prev * \<bar>r_prev\<bar>" by (simp add: mult_sgn_abs)
  have b: "sgn r_curr * r_curr = \<bar>r_curr\<bar>" by (simp add: abs_sgn mult.commute)
  have "q * r_curr = sgn r_prev * ((\<bar>r_prev\<bar> div \<bar>r_curr\<bar>) * (sgn r_curr * r_curr))"
    by (simp add: q bigint_div_def mult_ac)
  also have "\<dots> = sgn r_prev * ((\<bar>r_prev\<bar> div \<bar>r_curr\<bar>) * \<bar>r_curr\<bar>)"
    by (simp only: b)
  finally have "r_prev - q * r_curr
      = sgn r_prev * \<bar>r_prev\<bar> - sgn r_prev * ((\<bar>r_prev\<bar> div \<bar>r_curr\<bar>) * \<bar>r_curr\<bar>)"
    using a by simp
  also have "\<dots> = sgn r_prev * (\<bar>r_prev\<bar> - (\<bar>r_prev\<bar> div \<bar>r_curr\<bar>) * \<bar>r_curr\<bar>)"
    by (simp only: right_diff_distrib)
  also have "\<dots> = sgn r_prev * (\<bar>r_prev\<bar> mod \<bar>r_curr\<bar>)"
    by (simp only: minus_div_mult_eq_mod)
  finally have eq: "r_prev - q * r_curr = sgn r_prev * (\<bar>r_prev\<bar> mod \<bar>r_curr\<bar>)" .
  have lt: "\<bar>r_prev\<bar> mod \<bar>r_curr\<bar> < \<bar>r_curr\<bar>" using nz by simp
  have "0 \<le> \<bar>r_prev\<bar> mod \<bar>r_curr\<bar>" using nz by simp
  then have "\<bar>r_prev - q * r_curr\<bar> \<le> \<bar>r_prev\<bar> mod \<bar>r_curr\<bar>"
    unfolding eq by (cases "r_prev = 0") (simp_all add: abs_mult abs_sgn_eq)
  with lt show "((r_curr, r_prev - q * r_curr, t_curr, t_prev - q * t_curr),
        (r_prev, r_curr, t_prev, t_curr))
      \<in> measure (\<lambda>(r_prev, r_curr, t_prev, t_curr). nat \<bar>r_curr\<bar>)"
    by simp
qed

declare modInv_loop.simps [simp del]

definition modInv :: "int \<Rightarrow> int \<Rightarrow> int result" where
  "modInv b m =
     (if m \<le> 0 then Inl NegativeValueError
      else
        let a_init = bigint_rem (bigint_rem b m + m) m;
            (r_prev, t_prev) = modInv_loop m a_init 0 1
        in if r_prev \<noteq> 1 then Inl ValueError
           else Inr (bigint_rem (bigint_rem t_prev m + m) m))"

section \<open>Primality oracle\<close>

partial_function (option) factor_loop :: "int \<Rightarrow> int \<Rightarrow> (int \<times> int) option" where
  "factor_loop s d =
     (if bigint_rem d 2 = 0 then factor_loop (s + 1) (bigint_div d 2) else Some (s, d))"

declare factor_loop.simps [code]

definition factor :: "int \<Rightarrow> (int \<times> int) result option" where
  "factor n =
     (if n \<le> 1 then Some (Inl ValueError)
      else (case factor_loop 0 (n - 1) of
              None \<Rightarrow> None
            | Some sd \<Rightarrow> Some (Inr sd)))"

function isStrongPseudoprime_loop :: "int \<Rightarrow> int \<Rightarrow> int \<Rightarrow> int \<Rightarrow> bool result" where
  "isStrongPseudoprime_loop n s i x =
     (if i < s then
        (case pow x 2 (Some n) of
           Inl e \<Rightarrow> Inl e
         | Inr x' \<Rightarrow>
             if x' = n - 1 then Inr True
             else if x' = 1 then Inr False
             else isStrongPseudoprime_loop n s (i + 1) x')
      else Inr False)"
  by pat_completeness auto
termination
  by (relation "measure (\<lambda>(n, s, i, x). nat (s - i))") auto

declare isStrongPseudoprime_loop.simps [simp del]

definition isStrongPseudoprime :: "int \<Rightarrow> int \<Rightarrow> bool result option" where
  "isStrongPseudoprime n b =
     (if n AND 1 = 0 then Some (Inr False)
      else if n = 1 then Some (Inr False)
      else (case factor n of
              None \<Rightarrow> None
            | Some (Inl e) \<Rightarrow> Some (Inl e)
            | Some (Inr (s, d)) \<Rightarrow>
                (case pow b d (Some n) of
                   Inl e \<Rightarrow> Some (Inl e)
                 | Inr x \<Rightarrow>
                     if x = 1 \<or> x = n - 1 then Some (Inr True)
                     else Some (isStrongPseudoprime_loop n s 0 x))))"

text \<open>\<open>bases.every(...)\<close>: stops at the first base that fails.\<close>

fun every_base :: "int \<Rightarrow> int list \<Rightarrow> bool result option" where
  "every_base n [] = Some (Inr True)"
| "every_base n (b # bs) =
     (case isStrongPseudoprime n b of
        None \<Rightarrow> None
      | Some (Inl e) \<Rightarrow> Some (Inl e)
      | Some (Inr r) \<Rightarrow> if r then every_base n bs else Some (Inr False))"

definition isSmallStrongPseudoprime :: "int \<Rightarrow> bool result option" where
  "isSmallStrongPseudoprime n = every_base n [2, 13, 23, 1662803]"

function trialDivision_loop :: "int \<Rightarrow> int \<Rightarrow> int \<Rightarrow> bool" where
  "trialDivision_loop n limit i =
     (if i \<le> limit then
        (if bigint_rem n i = 0 then False else trialDivision_loop n limit (i + 2))
      else True)"
  by pat_completeness auto
termination
  by (relation "measure (\<lambda>(n, limit, i). nat (limit + 1 - i))") auto

declare trialDivision_loop.simps [simp del]

definition trialDivision :: "int \<Rightarrow> bool result option" where
  "trialDivision n =
     (if n \<le> 1 then Some (Inr False)
      else if n = 2 \<or> n = 3 then Some (Inr True)
      else if bigint_rem n 2 = 0 then Some (Inr False)
      else (case isqrt n of
              None \<Rightarrow> None
            | Some (Inl e) \<Rightarrow> Some (Inl e)
            | Some (Inr limit) \<Rightarrow> Some (Inr (trialDivision_loop n limit 3))))"

text \<open>\<open>isPrime_trace\<close> is the body of \<open>isPrime\<close>; next to the answer it records which
  \<open>return\<close> statement produced it.\<close>

datatype isPrime_exit =
  BelowTwo | SmallPrime | DivisibleBy235 | WheelShortCircuit | ByTrialDivision | ByStrongPseudoprime

definition isPrime_trace :: "int \<Rightarrow> isPrime_exit \<times> bool result option" where
  "isPrime_trace n =
     (if n < 2 then (BelowTwo, Some (Inr False))
      else if n = 2 \<or> n = 3 \<or> n = 5 then (SmallPrime, Some (Inr True))
      else if bigint_rem n 2 = 0 \<or> bigint_rem n 3 = 0 \<or> bigint_rem n 5 = 0
        then (DivisibleBy235, Some (Inr False))
      else if gcd_js n 510510 > 1
        then (WheelShortCircuit, Some (Inr (n \<in> set [7, 11, 13, 17])))
      else if n < 2000000 then (ByTrialDivision, trialDivision n)
      else (ByStrongPseudoprime, isSmallStrongPseudoprime n))"

definition isPrime :: "int \<Rightarrow> bool result option" where
  "isPrime n = snd (isPrime_trace n)"

definition isPrime_exit :: "int \<Rightarrow> isPrime_exit" where
  "isPrime_exit n = fst (isPrime_trace n)"

section \<open>Prime generator\<close>









section \<open>Obfuskey\<close>








section \<open>ObfusbitSchema\<close>

text \<open>A schema item as the constructor receives it: its \<open>typeof\<close> checks are the point of
  the validation, so the two properties are JavaScript values. \<open>JOther\<close> stands for every
  value that is neither a string nor a BigInt.\<close>

datatype jsval = JString string | JBigInt int | JOther

record FieldSchema =
  fs_name :: jsval
  fs_bits :: jsval

record FieldInfo =
  fi_bits :: int
  fi_shift :: int

text \<open>A \<open>Record<string, T>\<close> is an association list with distinct keys: \<open>r[k] = v\<close> is
  \<open>AList.update\<close> (overwrite in place or append), \<open>r[k]\<close> is \<open>map_of\<close>, \<open>Object.keys\<close> and
  \<open>Object.entries\<close> walk the list. A \<open>Set<string>\<close> is the list of its members in insertion
  order.\<close>

definition set_add :: "string list \<Rightarrow> string \<Rightarrow> string list" where
  "set_add xs x = (if x \<in> set xs then xs else xs @ [x])"

definition validateSchemaItem :: "FieldSchema \<Rightarrow> nat \<Rightarrow> string list \<Rightarrow> unit result" where
  "validateSchemaItem field index seenFields =
     (case fs_name field of
        JString name \<Rightarrow>
          (case fs_bits field of
             JBigInt bits \<Rightarrow>
               if bits \<le> 0 then Inl SchemaValidationError
               else if name \<in> set seenFields then Inl SchemaValidationError
               else Inr ()
           | _ \<Rightarrow> Inl SchemaValidationError)
      | _ \<Rightarrow> Inl SchemaValidationError)"

fun validateSchema_loop :: "(nat \<times> FieldSchema) list \<Rightarrow> string list \<Rightarrow> unit result" where
  "validateSchema_loop [] seenFields = Inr ()"
| "validateSchema_loop ((i, field) # rest) seenFields =
     (case validateSchemaItem field i seenFields of
        Inl e \<Rightarrow> Inl e
      | Inr u \<Rightarrow>
          (case fs_name field of
             JString name \<Rightarrow> validateSchema_loop rest (set_add seenFields name)
           | _ \<Rightarrow> Inl TypeError))"

definition validateSchema :: "FieldSchema list \<Rightarrow> unit result" where
  "validateSchema schema = validateSchema_loop (enumerate 0 schema) []"

fun calculateFieldInfo_loop ::
  "(string \<times> int) list \<Rightarrow> (string \<times> FieldInfo) list \<Rightarrow> int \<Rightarrow> (string \<times> FieldInfo) list" where
  "calculateFieldInfo_loop [] fieldInfo currentShift = fieldInfo"
| "calculateFieldInfo_loop ((name, bits) # rest) fieldInfo currentShift =
     calculateFieldInfo_loop rest
       (AList.update name \<lparr>fi_bits = bits, fi_shift = currentShift\<rparr> fieldInfo)
       (currentShift + bits)"

definition calculateFieldInfo :: "(string \<times> int) list \<Rightarrow> (string \<times> FieldInfo) list" where
  "calculateFieldInfo schema = calculateFieldInfo_loop (rev schema) [] 0"

text \<open>After validation every name is a string and every width a BigInt; the stored
  definition keeps them at those types.\<close>

definition typed_field :: "FieldSchema \<Rightarrow> string \<times> int" where
  "typed_field f =
     (case (fs_name f, fs_bits f) of
        (JString name, JBigInt bits) \<Rightarrow> (name, bits)
      | _ \<Rightarrow> ([], 0))"

record ObfusbitSchema =
  sch_definition :: "(string \<times> int) list"
  sch_totalBits :: int
  sch_maximumValue :: int
  sch_fieldInfo :: "(string \<times> FieldInfo) list"
  sch_fieldNames :: "string list"

definition new_ObfusbitSchema :: "FieldSchema list \<Rightarrow> ObfusbitSchema result" where
  "new_ObfusbitSchema schema =
     (case validateSchema schema of
        Inl e \<Rightarrow> Inl e
      | Inr u \<Rightarrow>
          let d = map typed_field schema;
              totalBits = foldl (\<lambda>sum field. sum + snd field) 0 d
          in Inr \<lparr>sch_definition = d,
                  sch_totalBits = totalBits,
                  sch_maximumValue = bigint_shl 1 totalBits - 1,
                  sch_fieldInfo = calculateFieldInfo d,
                  sch_fieldNames = foldl set_add [] (map fst d)\<rparr>)"




section \<open>Obfusbit\<close>









section \<open>Specification vocabulary\<close>

text \<open>The bit layout the schema is meant to compute: walking the fields from the last
  listed to the first, each field starts where the previous one ended.\<close>

fun layout :: "(string \<times> int) list \<Rightarrow> int \<Rightarrow> (string \<times> FieldInfo) list" where
  "layout [] currentShift = []"
| "layout ((name, bits) # rest) currentShift =
     (name, \<lparr>fi_bits = bits, fi_shift = currentShift\<rparr>) # layout rest (currentShift + bits)"




text \<open>Positional notation: the base-\<open>b\<close> digits of a positive number, least significant
  first, and the number a digit list stands for.\<close>

function digits :: "int \<Rightarrow> int \<Rightarrow> int list" where
  "digits b v = (if 0 < v \<and> 2 \<le> b then (v mod b) # digits b (v div b) else [])"
  by pat_completeness auto
termination
proof (relation "measure (\<lambda>(b, v). nat v)")
  show "wf (measure (\<lambda>(b, v). nat v))" by simp
next
  fix b v :: int
  assume "0 < v \<and> 2 \<le> b"
  then have "v div b < v" by (simp add: int_div_less_self)
  then show "((b, v div b), (b, v)) \<in> measure (\<lambda>(b, v). nat v)"
    using \<open>0 < v \<and> 2 \<le> b\<close> by simp
qed

declare digits.simps [simp del]



text \<open>Primality of a BigInt, stated without reference to the program.\<close>

definition is_prime :: "int \<Rightarrow> bool" where
  "is_prime p \<longleftrightarrow> 1 < p \<and> (\<forall>d. 1 < d \<and> d < p \<longrightarrow> \<not> d dvd p)"

section \<open>Verification\<close>

subsection \<open>Encoding zero and schema names\<close>

lemma new_ObfuskeyAlphabet_Inr:
  "new_ObfuskeyAlphabet s = Inr a \<Longrightarrow> a = \<lparr>alphabet = s, base = int (length s)\<rparr> \<and> distinct s"
  by (auto simp: new_ObfuskeyAlphabet_def card_distinct split: if_splits)

lemma encode_loop_stop: "\<not> v > 0 \<Longrightarrow> encode_loop a v key = Some (Inr key)"
  by (subst encode_loop.simps) simp

text \<open>
  C7, as the code has it. The plain encoding of zero is not the empty string: \<open>encode\<close>
  answers every value below the base with \<open>charAt\<close>, so \<open>encode(0, alphabet)\<close> is the
  one-character string of the alphabet's first symbol. Only for the empty alphabet (base 0)
  is the result the empty string.
\<close>

theorem C7_encode_zero:
  assumes "new_ObfuskeyAlphabet s = Inr a"
  shows "encode 0 a = Some (Inr (take 1 s))"
proof -
  from assms have a: "a = \<lparr>alphabet = s, base = int (length s)\<rparr>"
    by (simp add: new_ObfuskeyAlphabet_Inr)
  show ?thesis
  proof (cases s)
    case Nil
    then show ?thesis by (simp add: a encode_def encode_loop_stop)
  next
    case (Cons c cs)
    then show ?thesis by (simp add: a encode_def charAt_def)
  qed
qed

theorem C7_encode_zero_witness:
  "new_ObfuskeyAlphabet ''ab'' = Inr \<lparr>alphabet = ''ab'', base = 2\<rparr>
   \<and> encode 0 \<lparr>alphabet = ''ab'', base = 2\<rparr> = Some (Inr ''a'')"
proof -
  have h: "new_ObfuskeyAlphabet ''ab'' = Inr \<lparr>alphabet = ''ab'', base = 2\<rparr>"
    by (simp add: new_ObfuskeyAlphabet_def)
  from C7_encode_zero [OF h] h show ?thesis by simp
qed

theorem C7_encode_zero_counterexample:
  "new_ObfuskeyAlphabet ''0123456789abcdef'' = Inr \<lparr>alphabet = ''0123456789abcdef'', base = 16\<rparr>
   \<and> encode 0 \<lparr>alphabet = ''0123456789abcdef'', base = 16\<rparr> = Some (Inr ''0'')
   \<and> encode 0 \<lparr>alphabet = ''0123456789abcdef'', base = 16\<rparr> \<noteq> Some (Inr [])"
  by (simp add: new_ObfuskeyAlphabet_def encode_def charAt_def)

lemma validateSchemaItem_cases:
  "validateSchemaItem f i seen = Inr () \<or> validateSchemaItem f i seen = Inl SchemaValidationError"
  by (simp add: validateSchemaItem_def split: jsval.splits)

lemma validateSchemaItem_Inr:
  "validateSchemaItem f i seen = Inr u \<Longrightarrow>
     \<exists>name bits. fs_name f = JString name \<and> fs_bits f = JBigInt bits \<and> 0 < bits \<and> name \<notin> set seen"
  by (auto simp: validateSchemaItem_def split: jsval.splits if_splits)

lemma validateSchema_loop_fails:
  assumes "(\<exists>f \<in> set (map snd items). \<forall>s. fs_name f \<noteq> JString s)
           \<or> \<not> distinct (map (\<lambda>p. fs_name (snd p)) items)
           \<or> (\<exists>f \<in> set (map snd items). \<exists>s \<in> set seen. fs_name f = JString s)"
  shows "validateSchema_loop items seen = Inl SchemaValidationError"
  using assms
proof (induction items seen rule: validateSchema_loop.induct)
  case (1 seen)
  then show ?case by simp
next
  case (2 i field rest seen)
  show ?case
  proof (cases "validateSchemaItem field i seen")
    case (Inl e)
    with validateSchemaItem_cases [of field i seen] show ?thesis by auto
  next
    case (Inr u)
    then obtain name bits where nm: "fs_name field = JString name" and ns: "name \<notin> set seen"
      using validateSchemaItem_Inr by blast
    have "(\<exists>f \<in> set (map snd rest). \<forall>s. fs_name f \<noteq> JString s)
           \<or> \<not> distinct (map (\<lambda>p. fs_name (snd p)) rest)
           \<or> (\<exists>f \<in> set (map snd rest). \<exists>s \<in> set (set_add seen name). fs_name f = JString s)"
    proof -
      consider (a) "\<exists>f \<in> set (map snd ((i, field) # rest)). \<forall>s. fs_name f \<noteq> JString s"
        | (b) "\<not> distinct (map (\<lambda>p. fs_name (snd p)) ((i, field) # rest))"
        | (c) "\<exists>f \<in> set (map snd ((i, field) # rest)). \<exists>s \<in> set seen. fs_name f = JString s"
        using "2.prems" by blast
      then show ?thesis
      proof cases
        case a
        with nm show ?thesis by auto
      next
        case b
        then have "fs_name field \<in> set (map (\<lambda>p. fs_name (snd p)) rest) \<or> \<not> distinct (map (\<lambda>p. fs_name (snd p)) rest)"
          by simp
        then show ?thesis
        proof
          assume "fs_name field \<in> set (map (\<lambda>p. fs_name (snd p)) rest)"
          then obtain p where "p \<in> set rest" "fs_name (snd p) = JString name"
            using nm by auto
          then have "\<exists>f \<in> set (map snd rest). \<exists>s \<in> set (set_add seen name). fs_name f = JString s"
            by (auto simp: set_add_def)
          then show ?thesis by blast
        next
          assume "\<not> distinct (map (\<lambda>p. fs_name (snd p)) rest)"
          then show ?thesis by blast
        qed
      next
        case c
        then obtain f s where f: "f = field \<or> f \<in> set (map snd rest)" and s: "s \<in> set seen" "fs_name f = JString s"
          by auto
        from f show ?thesis
        proof
          assume "f = field"
          with s nm ns show ?thesis by simp
        next
          assume "f \<in> set (map snd rest)"
          with s have "\<exists>f \<in> set (map snd rest). \<exists>s \<in> set (set_add seen name). fs_name f = JString s"
            by (auto simp: set_add_def)
          then show ?thesis by blast
        qed
      qed
    qed
    then have "validateSchema_loop rest (set_add seen name) = Inl SchemaValidationError"
      by (rule "2.IH" [OF Inr nm])
    then show ?thesis using Inr nm by simp
  qed
qed

text \<open>
  C8, as the code has it. Constructing a schema fails with a schema-validation error
  whenever the name of some item is not a string, or two items carry the same name.
  Nothing asks a name to be non-empty or to look like an identifier: the schema with the
  single field named by the empty string is constructed.
\<close>

theorem C8_schema_name_validation:
  assumes "(\<exists>f \<in> set schema. \<forall>s. fs_name f \<noteq> JString s) \<or> \<not> distinct (map fs_name schema)"
  shows "new_ObfusbitSchema schema = Inl SchemaValidationError"
proof -
  have m: "map snd (enumerate 0 schema) = schema"
    by (simp add: enumerate_eq_zip)
  then have "map (\<lambda>p. fs_name (snd p)) (enumerate 0 schema) = map fs_name schema"
    by (metis (no_types, lifting) map_map comp_def map_eq_conv)
  with assms m have "validateSchema_loop (enumerate 0 schema) [] = Inl SchemaValidationError"
    by (intro validateSchema_loop_fails) auto
  then show ?thesis by (simp add: new_ObfusbitSchema_def validateSchema_def)
qed

theorem C8_schema_name_validation_witness:
  "new_ObfusbitSchema [\<lparr>fs_name = JString ''id'', fs_bits = JBigInt 10\<rparr>,
                       \<lparr>fs_name = JOther, fs_bits = JBigInt 4\<rparr>] = Inl SchemaValidationError
   \<and> new_ObfusbitSchema [\<lparr>fs_name = JString ''id'', fs_bits = JBigInt 10\<rparr>,
                       \<lparr>fs_name = JString ''id'', fs_bits = JBigInt 4\<rparr>] = Inl SchemaValidationError"
proof -
  have 1: "new_ObfusbitSchema [\<lparr>fs_name = JString ''id'', fs_bits = JBigInt 10\<rparr>,
                       \<lparr>fs_name = JOther, fs_bits = JBigInt 4\<rparr>] = Inl SchemaValidationError"
    by (rule C8_schema_name_validation) simp
  have 2: "new_ObfusbitSchema [\<lparr>fs_name = JString ''id'', fs_bits = JBigInt 10\<rparr>,
                       \<lparr>fs_name = JString ''id'', fs_bits = JBigInt 4\<rparr>] = Inl SchemaValidationError"
    by (rule C8_schema_name_validation) simp
  from 1 2 show ?thesis by simp
qed

theorem C8_empty_name_counterexample:
  "new_ObfusbitSchema [\<lparr>fs_name = JString '''', fs_bits = JBigInt 1\<rparr>] =
     Inr \<lparr>sch_definition = [('''', 1)], sch_totalBits = 1, sch_maximumValue = 1,
          sch_fieldInfo = [('''', \<lparr>fi_bits = 1, fi_shift = 0\<rparr>)], sch_fieldNames = ['''']\<rparr>"
  by (simp add: new_ObfusbitSchema_def validateSchema_def validateSchemaItem_def enumerate_eq_zip
      calculateFieldInfo_def set_add_def bigint_shl_def typed_field_def)

subsection \<open>BigInt division, gcd and the modular inverse\<close>

lemma bigint_div_nonneg: "0 \<le> a \<Longrightarrow> 0 \<le> b \<Longrightarrow> bigint_div a b = a div b"
  by (cases "a = 0"; cases "b = 0") (simp_all add: bigint_div_def)

lemma bigint_rem_nonneg: "0 \<le> a \<Longrightarrow> 0 \<le> b \<Longrightarrow> bigint_rem a b = a mod b"
  by (cases "a = 0"; cases "b = 0") (simp_all add: bigint_rem_def)

lemma bigint_rem_bounds:
  assumes "0 < m"
  shows "- m < bigint_rem b m" and "bigint_rem b m < m"
proof -
  have lt: "\<bar>b\<bar> mod m < m" and ge: "0 \<le> \<bar>b\<bar> mod m" using assms by simp_all
  have "\<bar>bigint_rem b m\<bar> \<le> \<bar>b\<bar> mod m"
    using ge assms by (cases "b = 0") (simp_all add: bigint_rem_def abs_mult abs_sgn_eq)
  with lt show "- m < bigint_rem b m" and "bigint_rem b m < m" by linarith+
qed

lemma bigint_rem_cong:
  assumes "0 < m"
  shows "bigint_rem b m mod m = b mod m"
proof (cases "0 \<le> b")
  case True
  then show ?thesis using assms by (simp add: bigint_rem_nonneg)
next
  case False
  then have "bigint_rem b m = - ((- b) mod m)"
    using assms by (simp add: bigint_rem_def sgn_if abs_if)
  then show ?thesis by (simp add: mod_minus_eq)
qed

lemma normalise_rem:
  assumes "0 < m"
  shows "bigint_rem (bigint_rem b m + m) m = b mod m"
proof -
  have "0 \<le> bigint_rem b m + m" using bigint_rem_bounds(1) [OF assms, of b] by simp
  then have "bigint_rem (bigint_rem b m + m) m = (bigint_rem b m + m) mod m"
    using assms by (simp add: bigint_rem_nonneg)
  also have "\<dots> = bigint_rem b m mod m" by simp
  finally show ?thesis by (simp add: bigint_rem_cong [OF assms])
qed



lemma modInv_loop_stop: "modInv_loop r_prev 0 t_prev t_curr = (r_prev, t_prev)"
  by (subst modInv_loop.simps) simp

lemma modInv_loop_step:
  "r_curr \<noteq> 0 \<Longrightarrow> modInv_loop r_prev r_curr t_prev t_curr =
     modInv_loop r_curr (r_prev - bigint_div r_prev r_curr * r_curr) t_curr
       (t_prev - bigint_div r_prev r_curr * t_curr)"
  by (subst modInv_loop.simps) (simp add: Let_def)

lemma modInv_loop_inv:
  assumes "0 \<le> r_prev" "0 \<le> r_curr"
    and "(t_prev * a) mod m = r_prev mod m" "(t_curr * a) mod m = r_curr mod m"
    and "modInv_loop r_prev r_curr t_prev t_curr = (g, t)"
  shows "g = gcd r_prev r_curr \<and> (t * a) mod m = g mod m"
  using assms
proof (induction r_prev r_curr t_prev t_curr rule: modInv_loop.induct)
  case (1 r_prev r_curr t_prev t_curr)
  show ?case
  proof (cases "r_curr = 0")
    case True
    with "1.prems" show ?thesis by (simp add: modInv_loop_stop)
  next
    case False
    define q where "q = bigint_div r_prev r_curr"
    have q: "q = r_prev div r_curr" using "1.prems" by (simp add: q_def bigint_div_nonneg)
    have r: "r_prev - q * r_curr = r_prev mod r_curr"
      by (simp add: q minus_div_mult_eq_mod)
    have nn: "0 \<le> r_prev - q * r_curr" using False "1.prems" by (simp add: r)
    have "((t_prev - q * t_curr) * a) mod m = (t_prev * a - q * (t_curr * a)) mod m"
      by (simp add: algebra_simps)
    also have "\<dots> = (r_prev - q * r_curr) mod m"
      using "1.prems"(3,4) by (intro mod_diff_cong mod_mult_cong) simp_all
    finally have c: "((t_prev - q * t_curr) * a) mod m = (r_prev - q * r_curr) mod m" .
    have step: "modInv_loop r_curr (r_prev - q * r_curr) t_curr (t_prev - q * t_curr) = (g, t)"
      using "1.prems"(5) False by (simp add: modInv_loop_step q_def)
    have "g = gcd r_curr (r_prev - q * r_curr) \<and> (t * a) mod m = g mod m"
      by (rule "1.IH" [OF False q_def "1.prems"(2) nn "1.prems"(4) c step])
    moreover have "gcd r_prev r_curr = gcd r_curr (r_prev mod r_curr)" by (rule gcd_red_int)
    ultimately show ?thesis by (simp add: r)
  qed
qed

lemma modInv_spec:
  assumes "0 < m"
  obtains g t where "modInv_loop m (b mod m) 0 1 = (g, t)" "g = gcd (b mod m) m"
    "(t * b) mod m = g mod m"
    "modInv b m = (if g \<noteq> 1 then Inl ValueError else Inr (t mod m))"
proof -
  obtain g t where gt: "modInv_loop m (b mod m) 0 1 = (g, t)" by (cases "modInv_loop m (b mod m) 0 1")
  have "g = gcd m (b mod m) \<and> (t * (b mod m)) mod m = g mod m"
    using assms by (intro modInv_loop_inv [OF _ _ _ _ gt]) simp_all
  then have g: "g = gcd (b mod m) m" and t: "(t * b) mod m = g mod m"
    by (simp_all add: gcd.commute mod_mult_right_eq)
  have "modInv b m = (if g \<noteq> 1 then Inl ValueError else Inr (t mod m))"
    using assms gt by (simp add: modInv_def normalise_rem)
  with gt g t show ?thesis using that by blast
qed

text \<open>
  C4, as the code has it. For a positive modulus \<open>m\<close>, \<open>modInv(a, m)\<close> throws the
  not-invertible ValueError exactly when \<open>gcd(a mod m, m) \<noteq> 1\<close>; when \<open>gcd(a, m) = 1\<close> it
  returns an \<open>x\<close> in \<open>[0, m)\<close> with \<open>(a * x) mod m = 1 mod m\<close>, which is 1 for every
  \<open>m > 1\<close>. For \<open>m = 1\<close> the result is 0 and the product is 0 modulo 1.
\<close>

theorem C4_modInv:
  assumes "0 < m"
  shows "(modInv a m = Inl ValueError \<longleftrightarrow> gcd (a mod m) m \<noteq> 1)
       \<and> (gcd a m = 1 \<longrightarrow>
            (\<exists>x. modInv a m = Inr x \<and> 0 \<le> x \<and> x < m \<and> (a * x) mod m = 1 mod m))"
proof -
  obtain g t where g: "g = gcd (a mod m) m" and t: "(t * a) mod m = g mod m"
    and r: "modInv a m = (if g \<noteq> 1 then Inl ValueError else Inr (t mod m))"
    using modInv_spec [OF assms] by blast
  have gg: "gcd (a mod m) m = gcd a m"
    by (metis gcd.commute gcd_red_int)
  have 1: "modInv a m = Inl ValueError \<longleftrightarrow> gcd (a mod m) m \<noteq> 1"
    using r g by simp
  have 2: "\<exists>x. modInv a m = Inr x \<and> 0 \<le> x \<and> x < m \<and> (a * x) mod m = 1 mod m" if "gcd a m = 1"
  proof -
    from that gg g have g1: "g = 1" by simp
    have "(a * (t mod m)) mod m = (t * a) mod m"
      by (simp add: mod_mult_right_eq mult.commute)
    with t g1 have "(a * (t mod m)) mod m = 1 mod m" by simp
    moreover have "0 \<le> t mod m" "t mod m < m" using assms by simp_all
    ultimately show ?thesis using r g1 by simp
  qed
  from 1 2 show ?thesis by blast
qed

theorem C4_modInv_witness:
  "(0::int) < 9 \<and> gcd ((6::int) mod 9) 9 \<noteq> 1 \<and> modInv 6 9 = Inl ValueError
   \<and> (0::int) < 68719476736 \<and> gcd (7::int) 68719476736 = 1
   \<and> (\<exists>x. modInv 7 68719476736 = Inr x \<and> 0 \<le> x \<and> x < 68719476736
          \<and> (7 * x) mod 68719476736 = 1 mod 68719476736)"
proof -
  have h: "(0::int) < 68719476736" "(0::int) < 9" by simp_all
  have g: "gcd (7::int) 68719476736 = 1" "gcd ((6::int) mod 9) 9 \<noteq> 1" by code_simp+
  from C4_modInv [OF h(1), of 7] C4_modInv [OF h(2), of 6] g h show ?thesis by blast
qed

theorem C4_modInv_counterexample:
  "(0::int) < 1 \<and> gcd (5::int) 1 = 1 \<and> modInv 5 1 = Inr 0 \<and> (5 * 0) mod 1 \<noteq> (1::int)"
  by (simp add: modInv_def modInv_loop_stop bigint_rem_def)

subsection \<open>The wheel short-circuit of the primality oracle\<close>

text \<open>
  C5, as the code has it. For every \<open>n > 5\<close> not divisible by 2, 3 or 5 with
  \<open>gcd(n, 510510) > 1\<close>, \<open>isPrime(n)\<close> answers at the gcd short-circuit, and the answer is
  true exactly when \<open>n\<close> is 7, 11, 13 or 17. \<open>isPrime(561)\<close> is false, but 561 is divisible
  by 3: the answer comes from the divisibility test that precedes the gcd test, which 561
  never reaches.
\<close>

theorem C5_isPrime_wheel:
  "(5 < n \<and> n mod 2 \<noteq> 0 \<and> n mod 3 \<noteq> 0 \<and> n mod 5 \<noteq> 0 \<and> gcd_js n 510510 > 1 \<longrightarrow>
      isPrime n = Some (Inr (n = 7 \<or> n = 11 \<or> n = 13 \<or> n = 17))
      \<and> isPrime_exit n = WheelShortCircuit)
   \<and> isPrime 561 = Some (Inr False) \<and> isPrime_exit 561 = DivisibleBy235"
proof -
  have a: "isPrime n = Some (Inr (n = 7 \<or> n = 11 \<or> n = 13 \<or> n = 17))
      \<and> isPrime_exit n = WheelShortCircuit"
    if "5 < n" "n mod 2 \<noteq> 0" "n mod 3 \<noteq> 0" "n mod 5 \<noteq> 0" "gcd_js n 510510 > 1"
    using that by (simp add: isPrime_def isPrime_exit_def isPrime_trace_def bigint_rem_nonneg)
  have b: "isPrime_trace 561 = (DivisibleBy235, Some (Inr False))"
    by (simp add: isPrime_trace_def bigint_rem_nonneg)
  from a b show ?thesis by (simp add: isPrime_def isPrime_exit_def)
qed

theorem C5_isPrime_wheel_witness:
  "(5::int) < 49 \<and> (49::int) mod 2 \<noteq> 0 \<and> (49::int) mod 3 \<noteq> 0 \<and> (49::int) mod 5 \<noteq> 0
   \<and> gcd_js 49 510510 > 1 \<and> isPrime 49 = Some (Inr False) \<and> isPrime_exit 49 = WheelShortCircuit
   \<and> (5::int) < 13 \<and> gcd_js 13 510510 > 1 \<and> isPrime 13 = Some (Inr True)"
proof -
  have g: "gcd_js 49 510510 > 1" "gcd_js 13 510510 > 1" by code_simp+
  from C5_isPrime_wheel [of 49] C5_isPrime_wheel [of 13] g show ?thesis by simp
qed

theorem C5_isPrime_561_counterexample:
  "bigint_rem 561 3 = 0 \<and> isPrime_exit 561 = DivisibleBy235 \<and> isPrime_exit 561 \<noteq> WheelShortCircuit"
  by (simp add: isPrime_exit_def isPrime_trace_def bigint_rem_nonneg)

subsection \<open>What a constructed schema holds\<close>








subsection \<open>Bit fields\<close>





subsection \<open>Unpacking\<close>








subsection \<open>Packing\<close>

lemma layout_nonneg_shift:
  "0 \<le> cs \<Longrightarrow> \<forall>b \<in> set (map snd e). 0 \<le> b \<Longrightarrow> (n, i) \<in> set (layout e cs) \<Longrightarrow>
     cs \<le> fi_shift i \<and> (n, fi_bits i) \<in> set e"
proof (induction e cs rule: layout.induct)
  case (1 cs)
  then show ?case by simp
next
  case (2 name bits rest cs)
  from "2.prems"(3) consider "(n, i) = (name, \<lparr>fi_bits = bits, fi_shift = cs\<rparr>)"
    | "(n, i) \<in> set (layout rest (cs + bits))" by auto
  then show ?case
  proof cases
    case 1
    then show ?thesis by auto
  next
    case 2
    have "0 \<le> cs + bits" using "2.prems" by simp
    moreover have "\<forall>b \<in> set (map snd rest). 0 \<le> b" using "2.prems" by simp
    ultimately have "cs + bits \<le> fi_shift i \<and> (n, fi_bits i) \<in> set rest"
      using 2 by (rule "2.IH")
    then show ?thesis using "2.prems" by auto
  qed
qed






subsection \<open>Pack and unpack are inverse\<close>








subsection \<open>Positional notation\<close>

lemma digits_pos: "0 < v \<Longrightarrow> 2 \<le> b \<Longrightarrow> digits b v = (v mod b) # digits b (v div b)"
  by (subst digits.simps) simp

lemma digits_nonpos: "v \<le> 0 \<Longrightarrow> digits b v = []"
  by (subst digits.simps) simp




lemma digits_last: "0 < v \<Longrightarrow> 2 \<le> b \<Longrightarrow> digits b v \<noteq> [] \<and> last (digits b v) \<noteq> 0"
proof (induction b v rule: digits.induct)
  case (1 b v)
  show ?case
  proof (cases "0 < v div b")
    case True
    then have "digits b (v div b) \<noteq> [] \<and> last (digits b (v div b)) \<noteq> 0"
      using "1.IH" "1.prems" by simp
    then show ?thesis using "1.prems" by (simp add: digits_pos)
  next
    case False
    then have "v div b = 0" using "1.prems"
      by (smt (verit) pos_imp_zdiv_nonneg_iff)
    then have "v mod b = v" using div_mult_mod_eq [of v b] by simp
    then show ?thesis using "1.prems" \<open>v div b = 0\<close> by (simp add: digits_pos digits_nonpos)
  qed
qed

subsection \<open>Encoding, padding and the generated multiplier\<close>












subsection \<open>Keys have the configured length\<close>






subsection \<open>Decoding and the round trip of the obfuscator\<close>











subsection \<open>Integer square root\<close>

lemma toString2_bound: "0 \<le> n \<Longrightarrow> n < 2 ^ length (toString2 n)"
proof (induction n rule: toString2.induct)
  case (1 n)
  show ?case
  proof (cases "n < 2")
    case True
    then show ?thesis by (subst toString2.simps) simp
  next
    case False
    then have "0 \<le> n div 2" by simp
    with "1.IH" False have "n div 2 < 2 ^ length (toString2 (n div 2))" by simp
    then have "n < 2 * 2 ^ length (toString2 (n div 2))" by linarith
    moreover have "length (toString2 n) = Suc (length (toString2 (n div 2)))"
      using False by (subst toString2.simps) simp
    ultimately show ?thesis by simp
  qed
qed

lemma newton_step_upper:
  fixes n x0 :: int
  assumes "0 \<le> n" "0 < x0"
  shows "n < ((x0 + n div x0) div 2 + 1) * ((x0 + n div x0) div 2 + 1)"
proof -
  define q where "q = n div x0"
  define x1 where "x1 = (x0 + q) div 2"
  have "n = x0 * q + n mod x0" by (simp add: q_def)
  moreover have "n mod x0 < x0" using assms by simp
  ultimately have n: "n < x0 * (q + 1)" by (simp add: algebra_simps)
  have s: "x0 + q + 1 \<le> 2 * (x1 + 1)" unfolding x1_def by presburger
  have q0: "0 \<le> q" using assms by (simp add: q_def pos_imp_zdiv_nonneg_iff)
  have "0 \<le> (x0 - (q + 1)) * (x0 - (q + 1))" by simp
  then have "4 * (x0 * (q + 1)) \<le> (x0 + q + 1) * (x0 + q + 1)"
    by (simp add: algebra_simps)
  also have "\<dots> \<le> (2 * (x1 + 1)) * (2 * (x1 + 1))"
    using s assms q0 by (intro mult_mono) simp_all
  finally have "4 * (x0 * (q + 1)) \<le> 4 * ((x1 + 1) * (x1 + 1))" by (simp add: algebra_simps)
  with n show ?thesis by (simp add: x1_def q_def)
qed

lemma newton_stop_lower:
  fixes n x0 :: int
  assumes "0 \<le> n" "0 < x0" "\<not> (x0 + n div x0) div 2 < x0"
  shows "x0 * x0 \<le> n"
proof -
  define q where "q = n div x0"
  have "\<not> (x0 + q) div 2 < x0" using assms(3) by (simp add: q_def)
  then have "x0 \<le> q" by presburger
  then have "x0 \<le> n div x0" by (simp add: q_def)
  then have "x0 * x0 \<le> x0 * (n div x0)" using assms(2) by (intro mult_left_mono) simp_all
  also have "\<dots> = n - n mod x0" by (simp add: minus_mod_eq_mult_div)
  also have "\<dots> \<le> n" using assms(2) by simp
  finally show ?thesis .
qed

lemma isqrt_loop_correct:
  assumes "1 \<le> n" "0 < x0" "n < (x0 + 1) * (x0 + 1)"
  shows "\<exists>r. isqrt_loop n x0 ((x0 + n div x0) div 2) = Some (Inr r)
           \<and> 0 \<le> r \<and> r * r \<le> n \<and> n < (r + 1) * (r + 1)"
  using assms
proof (induction "nat x0" arbitrary: x0 rule: less_induct)
  case less
  define x1 where "x1 = (x0 + n div x0) div 2"
  have n0: "0 \<le> n" using less.prems by simp
  show ?case
  proof (cases "x1 < x0")
    case True
    have up: "n < (x1 + 1) * (x1 + 1)"
      unfolding x1_def using n0 less.prems(2) by (rule newton_step_upper)
    have "0 \<le> x1" using less.prems n0 by (simp add: x1_def pos_imp_zdiv_nonneg_iff)
    have x1pos: "0 < x1"
    proof (rule ccontr)
      assume "\<not> 0 < x1"
      with \<open>0 \<le> x1\<close> have "x1 = 0" by simp
      with up less.prems(1) show False by simp
    qed
    have "bigint_shr (x1 + bigint_div n x1) 1 = (x1 + n div x1) div 2"
      using x1pos n0 by (simp add: bigint_shr_def bigint_div_nonneg drop_bit_eq_div)
    then have step: "isqrt_loop n x0 x1 = isqrt_loop n x1 ((x1 + n div x1) div 2)"
      using True x1pos by (subst isqrt_loop.simps) simp
    have "nat x1 < nat x0" using True x1pos by simp
    from less.hyps [OF this less.prems(1) x1pos up] step show ?thesis
      by (simp add: x1_def)
  next
    case False
    then have "isqrt_loop n x0 x1 = Some (Inr x0)" by (subst isqrt_loop.simps) simp
    moreover have "x0 * x0 \<le> n"
      using n0 less.prems(2) False unfolding x1_def by (rule newton_stop_lower)
    ultimately show ?thesis using less.prems by (auto simp: x1_def)
  qed
qed

lemma isqrt_correct:
  assumes "0 \<le> n"
  shows "\<exists>r. isqrt n = Some (Inr r) \<and> 0 \<le> r \<and> r * r \<le> n \<and> n < (r + 1) * (r + 1)"
proof (cases "n < 2")
  case True
  with assms have "n = 0 \<or> n = 1" by linarith
  then show ?thesis by (auto simp: isqrt_def)
next
  case False
  define bl where "bl = int (length (toString2 n))"
  define e where "e = nat ((bl + 1) div 2)"
  define x0 :: int where "x0 = 2 ^ e"
  have gb: "getBitLength n = Inr bl" using False by (simp add: getBitLength_def bl_def)
  have bl0: "0 \<le> bl" by (simp add: bl_def)
  have sh: "bigint_shl 1 (bigint_shr (bl + 1) 1) = x0"
    using bl0 by (simp add: bigint_shl_def bigint_shr_def drop_bit_eq_div x0_def e_def)
  have x0pos: "0 < x0" by (simp add: x0_def)
  have "nat bl \<le> 2 * e" using bl0 by (simp add: e_def)
  then have "(2::int) ^ nat bl \<le> 2 ^ (2 * e)" by (intro power_increasing) simp_all
  also have "\<dots> = x0 * x0" by (simp add: x0_def power_add [symmetric] mult_2)
  finally have "2 ^ nat bl \<le> x0 * x0" .
  moreover have "n < 2 ^ nat bl" using toString2_bound [of n] assms by (simp add: bl_def)
  ultimately have "n < x0 * x0" by linarith
  also have "\<dots> < (x0 + 1) * (x0 + 1)" using x0pos by (simp add: algebra_simps)
  finally have up: "n < (x0 + 1) * (x0 + 1)" .
  have st: "bigint_shr (x0 + bigint_div n x0) 1 = (x0 + n div x0) div 2"
    using x0pos assms by (simp add: bigint_shr_def bigint_div_nonneg drop_bit_eq_div)
  have "isqrt n = isqrt_loop n x0 ((x0 + n div x0) div 2)"
    using False x0pos by (simp add: isqrt_def gb sh st Let_def)
  moreover have "1 \<le> n" using False by simp
  ultimately show ?thesis using isqrt_loop_correct [OF _ x0pos up] by simp
qed

text \<open>
  C9. For every non-negative BigInt \<open>n\<close>, \<open>isqrt(n)\<close> returns (the Newton loop stops, and no
  division by zero occurs), and its result is the one non-negative integer \<open>r\<close> with
  \<open>r * r \<le> n < (r + 1) * (r + 1)\<close>.
\<close>

theorem C9_isqrt:
  assumes "0 \<le> n"
  shows "\<exists>r. isqrt n = Some (Inr r) \<and> 0 \<le> r \<and> r * r \<le> n \<and> n < (r + 1) * (r + 1)
           \<and> (\<forall>r'. 0 \<le> r' \<and> r' * r' \<le> n \<and> n < (r' + 1) * (r' + 1) \<longrightarrow> r' = r)"
proof -
  from isqrt_correct [OF assms]
  obtain r where r: "isqrt n = Some (Inr r)" "0 \<le> r" "r * r \<le> n" "n < (r + 1) * (r + 1)"
    by blast
  have "r' = r" if r': "0 \<le> r'" "r' * r' \<le> n" "n < (r' + 1) * (r' + 1)" for r'
  proof (rule ccontr)
    assume "r' \<noteq> r"
    then consider "r' + 1 \<le> r" | "r + 1 \<le> r'" by linarith
    then show False
    proof cases
      case 1
      then have "(r' + 1) * (r' + 1) \<le> r * r" using r' by (intro mult_mono) simp_all
      with r(3) r'(3) show False by linarith
    next
      case 2
      then have "(r + 1) * (r + 1) \<le> r' * r'" using r(2) by (intro mult_mono) simp_all
      with r(4) r'(2) show False by linarith
    qed
  qed
  with r show ?thesis by blast
qed

theorem C9_isqrt_witness:
  "(0::int) \<le> 99 \<and> isqrt 99 = Some (Inr 9) \<and> (9::int) * 9 \<le> 99 \<and> (99::int) < (9 + 1) * (9 + 1)"
proof -
  have h: "(0::int) \<le> 99" by simp
  from C9_isqrt [OF h] obtain r where r: "isqrt 99 = Some (Inr r)" "0 \<le> r" "r * r \<le> 99"
    "99 < (r + 1) * (r + 1)"
    and u: "\<forall>r'. 0 \<le> r' \<and> r' * r' \<le> (99::int) \<and> 99 < (r' + 1) * (r' + 1) \<longrightarrow> r' = r"
    by blast
  from u have "9 = r" by simp
  with r(1) show ?thesis by simp
qed

subsection \<open>Trial division\<close>





subsection \<open>The primality oracle is exact below two million\<close>






lemma divisor_not_prime: "1 < q \<Longrightarrow> q dvd m \<Longrightarrow> q \<noteq> m \<Longrightarrow> 0 < m \<Longrightarrow> \<not> is_prime m"
proof
  assume a: "1 < q" "q dvd m" "q \<noteq> m" "0 < m" "is_prime m"
  then have "q \<le> m" by (intro zdvd_imp_le) simp_all
  with a(3) have "q < m" by simp
  with a show False by (auto simp: is_prime_def)
qed


subsection \<open>The wheel and the search loop\<close>







subsection \<open>The next prime\<close>





text \<open>Above two million \<open>isPrime\<close> is the strong-pseudoprime test to the bases 2, 13, 23 and
  1662803. It accepts the composite \<open>611557 * 1834669\<close>, so the exactness of the search does not
  extend to every 512-bit argument.\<close>

lemma isPrime_accepts_composite:
  "isPrime 1122004669633 = Some (Inr True)
   \<and> (1122004669633::int) = 611557 * 1834669 \<and> \<not> is_prime 1122004669633"
proof (intro conjI)
  show "isPrime 1122004669633 = Some (Inr True)" by code_simp
  show f: "(1122004669633::int) = 611557 * 1834669" by simp
  have "(611557::int) dvd 1122004669633" unfolding f by (rule dvd_triv_left)
  then show "\<not> is_prime 1122004669633" by (rule divisor_not_prime [rotated]) simp_all
qed

end
